theory Spec2Isabelle
  imports Complex_Main "HOL-Library.Multiset" "HOL-Library.Log_Nat"
begin

section \<open>Words, replies and errors\<close>

text \<open>
  The notebook declares \<^verbatim>\<open>Word = str\<close> and \<^verbatim>\<open>Reply = str\<close>, with the three reply
  characters bound by \<^verbatim>\<open>Green, Yellow, Miss = 'GY.'\<close>.  Indexing a string beyond its
  end raises \<^verbatim>\<open>IndexError\<close>; that is the only exception the modelled functions can
  raise, and it is a value of the model.
\<close>

type_synonym Word = string
type_synonym Reply = string

definition Green :: char where "Green = CHR ''G''"
definition Yellow :: char where "Yellow = CHR ''Y''"
definition Miss :: char where "Miss = CHR ''.''"

datatype error = IndexError | ZeroDivisionError

section \<open>Counter\<close>

text \<open>
  A \<^verbatim>\<open>Counter\<close> is a dictionary from keys to integers that keeps its keys in the order
  of their first insertion: an association list.  \<^verbatim>\<open>Counter(iterable)\<close> counts the
  elements one after the other, \<^verbatim>\<open>counts[k]\<close> is 0 for a missing key (and does not
  insert it), \<^verbatim>\<open>counts[k] -= 1\<close> stores the old value minus one.
\<close>

type_synonym 'a Counter = "('a \<times> int) list"

fun incr :: "'a \<Rightarrow> 'a Counter \<Rightarrow> 'a Counter" where
  "incr k [] = [(k, 1)]"
| "incr k ((k', n) # c) = (if k = k' then (k', n + 1) # c else (k', n) # incr k c)"

fun decr :: "'a \<Rightarrow> 'a Counter \<Rightarrow> 'a Counter" where
  "decr k [] = [(k, - 1)]"
| "decr k ((k', n) # c) = (if k = k' then (k', n - 1) # c else (k', n) # decr k c)"

definition Counter :: "'a list \<Rightarrow> 'a Counter" where
  "Counter xs = fold incr xs []"

definition cget :: "'a Counter \<Rightarrow> 'a \<Rightarrow> int" where
  "cget c k = (case map_of c k of None \<Rightarrow> 0 | Some n \<Rightarrow> n)"


section \<open>The feedback encoder \<^verbatim>\<open>reply_for\<close>\<close>

text \<open>
  One round of the second loop of \<^verbatim>\<open>reply_for\<close>: position \<open>i\<close> turns Yellow when it is
  still a Miss and the guess's letter there is left in \<open>counts\<close>.
\<close>

definition yellow_step :: "Word \<Rightarrow> nat \<Rightarrow> char Counter \<times> Reply \<Rightarrow> char Counter \<times> Reply" where
  "yellow_step guess i s =
     (case s of (counts, reply) \<Rightarrow>
        if reply ! i = Miss \<and> cget counts (guess ! i) > 0
        then (decr (guess ! i) counts, reply[i := Yellow])
        else (counts, reply))"

text \<open>
  \<^verbatim>\<open>reply_for\<close> reads \<^verbatim>\<open>guess[i]\<close> and \<^verbatim>\<open>target[i]\<close> for \<^verbatim>\<open>i in range(5)\<close>: a word of
  fewer than five characters raises \<^verbatim>\<open>IndexError\<close>, and of a longer word only the first
  five characters are read.
\<close>

definition reply_for :: "Word \<Rightarrow> Word \<Rightarrow> error + Reply" where
  "reply_for guess target =
     (if length guess < 5 \<or> length target < 5 then Inl IndexError
      else
        let reply = map (\<lambda>i. if guess ! i = target ! i then Green else Miss) [0..<5];
            counts = Counter (map (\<lambda>i. target ! i)
                                (filter (\<lambda>i. guess ! i \<noteq> target ! i) [0..<5]))
        in Inr (snd (fold (yellow_step guess) [0..<5] (counts, reply))))"

section \<open>The partition engine\<close>

text \<open>
  A generator expression whose body may raise: the elements are computed from left to
  right and the first exception ends the whole expression.
\<close>

fun collect :: "('a \<Rightarrow> error + 'b) \<Rightarrow> 'a list \<Rightarrow> error + 'b list" where
  "collect f [] = Inr []"
| "collect f (x # xs) =
     (case f x of
        Inl e \<Rightarrow> Inl e
      | Inr y \<Rightarrow> (case collect f xs of Inl e \<Rightarrow> Inl e | Inr ys \<Rightarrow> Inr (y # ys)))"

text \<open>
  The \<^verbatim>\<open>defaultdict(list)\<close> of \<^verbatim>\<open>partition\<close>: keys are tuples of replies, values are the
  bins, and the entries stay in the order in which their keys were first used.
  \<^verbatim>\<open>partition[replies].append(target)\<close> extends the bin of an existing key in place and
  adds a new entry at the end for a new key.
\<close>

type_synonym Bins = "(Reply list \<times> Word list) list"

fun append_bin :: "'k \<Rightarrow> 'v \<Rightarrow> ('k \<times> 'v list) list \<Rightarrow> ('k \<times> 'v list) list" where
  "append_bin k v [] = [(k, [v])]"
| "append_bin k v ((k', b) # d) =
     (if k = k' then (k', b @ [v]) # d else (k', b) # append_bin k v d)"

definition dvalues :: "('k \<times> 'v) list \<Rightarrow> 'v list" where
  "dvalues d = map snd d"

definition replies_for :: "Word list \<Rightarrow> Word \<Rightarrow> error + Reply list" where
  "replies_for guesses target = collect (\<lambda>guess. reply_for guess target) guesses"

fun partition_loop :: "Word list \<Rightarrow> Word list \<Rightarrow> Bins \<Rightarrow> error + Bins" where
  "partition_loop guesses [] d = Inr d"
| "partition_loop guesses (target # targets) d =
     (case replies_for guesses target of
        Inl e \<Rightarrow> Inl e
      | Inr replies \<Rightarrow> partition_loop guesses targets (append_bin replies target d))"

text \<open>The source's \<^verbatim>\<open>partition\<close>; the name is suffixed because HOL has a \<open>partition\<close>.\<close>

definition partition_words :: "Word list \<Rightarrow> Word list \<Rightarrow> error + Bins" where
  "partition_words guesses targets = partition_loop guesses targets []"

section \<open>Floating-point numbers\<close>








section \<open>Bin statistics\<close>




section \<open>The win verifier\<close>

text \<open>
  Python's \<^verbatim>\<open>all\<close> over a generator stops at the first false element, so that later
  elements are not computed (and cannot raise).
\<close>

fun all_py :: "('a \<Rightarrow> error + bool) \<Rightarrow> 'a list \<Rightarrow> error + bool" where
  "all_py f [] = Inr True"
| "all_py f (x # xs) =
     (case f x of Inl e \<Rightarrow> Inl e | Inr b \<Rightarrow> if b then all_py f xs else Inr False)"

definition can_win_bin :: "Word \<Rightarrow> Word list \<Rightarrow> error + bool" where
  "can_win_bin guess bin =
     (case partition_words [guess] bin of
        Inl e \<Rightarrow> Inl e
      | Inr p \<Rightarrow> Inr (list_all (\<lambda>bin5. length bin5 = 1) (dvalues p)))"

definition can_win :: "Word list \<Rightarrow> Word list \<Rightarrow> error + bool" where
  "can_win guesses targets =
     (case partition_words guesses targets of
        Inl e \<Rightarrow> Inl e
      | Inr p \<Rightarrow>
          all_py (\<lambda>bin. if length bin < 2 then Inr True
                        else all_py (\<lambda>w. can_win_bin w bin) bin)
                 (dvalues p))"

text \<open>
  The variant of \<^verbatim>\<open>can_win\<close> that the notebook's prose describes (``the bin is 1 or 2
  words''): bins of two words are exempted without being checked.  It is not in the
  source; it is the other side of the comparison of Claim C10.
\<close>

definition can_win_exempt2 :: "Word list \<Rightarrow> Word list \<Rightarrow> error + bool" where
  "can_win_exempt2 guesses targets =
     (case partition_words guesses targets of
        Inl e \<Rightarrow> Inl e
      | Inr p \<Rightarrow>
          all_py (\<lambda>bin. if length bin < 3 then Inr True
                        else all_py (\<lambda>w. can_win_bin w bin) bin)
                 (dvalues p))"

section \<open>The candidate generator \<^verbatim>\<open>disjoint_words\<close>\<close>

text \<open>
  \<^verbatim>\<open>disjoint_words\<close> returns a tuple of words or \<^verbatim>\<open>None\<close>.  \<open>scan_words\<close> is its
  \<^verbatim>\<open>for w in words\<close> loop, with the words still to be visited as last argument; the
  recursive call starts again from the whole pool.  The count \<open>n\<close> is a Python integer
  and the recursion ends because every level takes five letters out of \<open>letters\<close>.
\<close>

function disjoint_words :: "int \<Rightarrow> Word list \<Rightarrow> char set \<Rightarrow> Word list option"
  and scan_words :: "int \<Rightarrow> Word list \<Rightarrow> char set \<Rightarrow> Word list \<Rightarrow> Word list option" where
  "disjoint_words n words letters =
     (if n = 0 then Some [] else scan_words n words letters words)"
| "scan_words n words letters [] = None"
| "scan_words n words letters (w # ws) =
     (if set w \<subseteq> letters \<and> card (set w) = 5
      then (case disjoint_words (n - 1) words (letters - set w) of
              Some rest \<Rightarrow> Some (w # rest)
            | None \<Rightarrow> scan_words n words letters ws)
      else scan_words n words letters ws)"
  by pat_completeness auto
termination
proof (relation "measures
    [\<lambda>x. case x of Inl (n, ws, l) \<Rightarrow> card l | Inr (n, ws, l, r) \<Rightarrow> card l,
     \<lambda>x. case x of Inl _ \<Rightarrow> Suc 0 | Inr _ \<Rightarrow> 0,
     \<lambda>x. case x of Inl _ \<Rightarrow> 0 | Inr (n, ws, l, r) \<Rightarrow> length r]", goal_cases)
  case 1
  show ?case by simp
next
  case (2 n words letters)
  show ?case by simp
next
  case (3 n words letters w ws)
  then have sub: "set w \<subseteq> letters" and five: "card (set w) = 5" by simp_all
  have "card (set w) \<le> card letters"
    using sub by (intro card_mono) simp_all
  moreover have "card (letters - set w) = card letters - card (set w)"
    using sub by (intro card_Diff_subset) simp_all
  ultimately have "card (letters - set w) < card letters"
    using five by linarith
  then show ?case by simp
next
  case (4 n words letters w ws)
  show ?case by simp
next
  case (5 n words letters w ws)
  show ?case by simp
qed

section \<open>Feasible word-sets\<close>

text \<open>
  The vocabulary in which the candidate generator is specified.  \<open>drawn words letters ws\<close>:
  the words \<open>ws\<close> are taken from the pool one after the other, each with five distinct
  letters out of the letters its predecessors have left.  \<open>feasible n words letters ws\<close>:
  \<open>ws\<close> are \<open>n\<close> words of the pool, each with five distinct letters of the budget, no
  two of them sharing a letter.
\<close>

fun drawn :: "Word list \<Rightarrow> char set \<Rightarrow> Word list \<Rightarrow> bool" where
  "drawn words letters [] = True"
| "drawn words letters (w # ws) =
     (w \<in> set words \<and> set w \<subseteq> letters \<and> card (set w) = 5 \<and> drawn words (letters - set w) ws)"

definition feasible :: "int \<Rightarrow> Word list \<Rightarrow> char set \<Rightarrow> Word list \<Rightarrow> bool" where
  "feasible n words letters ws =
     (int (length ws) = n \<and> set ws \<subseteq> set words
      \<and> (\<forall>w\<in>set ws. set w \<subseteq> letters \<and> card (set w) = 5)
      \<and> (\<forall>i<length ws. \<forall>j<length ws. i \<noteq> j \<longrightarrow> set (ws ! i) \<inter> set (ws ! j) = {}))"

section \<open>Invariant of the partition loop\<close>

text \<open>
  What holds of the dictionary after every round of the loop of \<^verbatim>\<open>partition\<close>: keys are
  unique, no bin is empty, and every word sits in the bin of its own tuple of replies.
\<close>

definition bins_inv :: "Word list \<Rightarrow> Bins \<Rightarrow> bool" where
  "bins_inv guesses d =
     (distinct (map fst d) \<and>
      (\<forall>(k, b)\<in>set d. b \<noteq> [] \<and> (\<forall>t\<in>set b. replies_for guesses t = Inr k)))"

section \<open>Properties of the counter and of the second pass\<close>

lemma cget_incr: "cget (incr k c) k' = (if k = k' then cget c k' + 1 else cget c k')"
  by (induction c) (auto simp: cget_def)

lemma cget_decr: "cget (decr k c) k' = (if k = k' then cget c k' - 1 else cget c k')"
  by (induction c) (auto simp: cget_def)

lemma cget_fold_incr: "cget (fold incr xs c) k = cget c k + int (count_list xs k)"
  by (induction xs arbitrary: c) (auto simp: cget_incr)

lemma cget_Counter: "cget (Counter xs) k = int (count_list xs k)"
proof -
  have "cget ([] :: 'a Counter) k = 0" by (simp add: cget_def)
  then show ?thesis by (simp add: Counter_def cget_fold_incr)
qed

lemma marks_distinct: "Green \<noteq> Yellow" "Green \<noteq> Miss" "Yellow \<noteq> Miss"
  by (simp_all add: Green_def Yellow_def Miss_def)

lemma yellow_step_length: "length (snd (yellow_step g i s)) = length (snd s)"
  by (cases s) (simp add: yellow_step_def)

lemma second_pass_length: "length (snd (fold (yellow_step g) is s)) = length (snd s)"
  by (induction "is" arbitrary: s) (simp_all add: yellow_step_length)

lemma yellow_step_green:
  "j < length (snd s) \<Longrightarrow> (snd (yellow_step g i s) ! j = Green) = (snd s ! j = Green)"
  using marks_distinct
  by (cases s; cases "i < length (snd s)") (auto simp: yellow_step_def nth_list_update)

lemma second_pass_green:
  "j < length (snd s) \<Longrightarrow> (snd (fold (yellow_step g) is s) ! j = Green) = (snd s ! j = Green)"
  by (induction "is" arbitrary: s) (simp_all add: yellow_step_green yellow_step_length)

lemma second_pass_count:
  assumes "n \<le> length r0" and "\<forall>i<n. r0 ! i \<noteq> Yellow" and "0 \<le> cget cnt c"
  shows "int (length (filter (\<lambda>i. g ! i = c \<and> snd (fold (yellow_step g) [0..<n] (cnt, r0)) ! i = Yellow) [0..<n]))
           + cget (fst (fold (yellow_step g) [0..<n] (cnt, r0))) c = cget cnt c
         \<and> 0 \<le> cget (fst (fold (yellow_step g) [0..<n] (cnt, r0))) c
         \<and> (\<forall>j\<ge>n. snd (fold (yellow_step g) [0..<n] (cnt, r0)) ! j = r0 ! j)"
  using assms
proof (induction n)
  case 0
  then show ?case by simp
next
  case (Suc n)
  obtain cnt1 r1 where s1: "fold (yellow_step g) [0..<n] (cnt, r0) = (cnt1, r1)"
    by (cases "fold (yellow_step g) [0..<n] (cnt, r0)")
  from Suc have ih: "int (length (filter (\<lambda>i. g ! i = c \<and> r1 ! i = Yellow) [0..<n])) + cget cnt1 c = cget cnt c"
    "0 \<le> cget cnt1 c" "\<forall>j\<ge>n. r1 ! j = r0 ! j"
    by (simp_all add: s1)
  have len1: "length r1 = length r0"
    using second_pass_length [of g "[0..<n]" "(cnt, r0)"] by (simp add: s1)
  have rn: "r1 ! n = r0 ! n" using ih(3) by simp
  have r0n: "r0 ! n \<noteq> Yellow" using Suc.prems by simp
  have nlt: "n < length r1" using Suc.prems len1 by simp
  have unfold: "fold (yellow_step g) [0..<Suc n] (cnt, r0) = yellow_step g n (cnt1, r1)"
    by (simp add: s1)
  show ?case
  proof (cases "r1 ! n = Miss \<and> cget cnt1 (g ! n) > 0")
    case True
    then have st: "yellow_step g n (cnt1, r1) = (decr (g ! n) cnt1, r1[n := Yellow])"
      by (simp add: yellow_step_def)
    have same: "filter (\<lambda>i. g ! i = c \<and> r1[n := Yellow] ! i = Yellow) [0..<n]
                = filter (\<lambda>i. g ! i = c \<and> r1 ! i = Yellow) [0..<n]"
      by (rule filter_cong) (auto simp: nth_list_update)
    have upd: "filter (\<lambda>i. g ! i = c \<and> r1[n := Yellow] ! i = Yellow) [0..<Suc n]
                = filter (\<lambda>i. g ! i = c \<and> r1 ! i = Yellow) [0..<n] @ (if g ! n = c then [n] else [])"
      using nlt by (simp add: same)
    have beyond: "\<forall>j\<ge>Suc n. r1[n := Yellow] ! j = r0 ! j"
      using ih(3) by simp
    have pos: "0 \<le> cget (decr (g ! n) cnt1) c"
      using ih(2) True by (auto simp: cget_decr)
    have sum: "int (length (filter (\<lambda>i. g ! i = c \<and> r1[n := Yellow] ! i = Yellow) [0..<Suc n]))
                + cget (decr (g ! n) cnt1) c = cget cnt c"
      unfolding upd using ih(1) by (simp add: cget_decr)
    show ?thesis
      unfolding unfold st using sum pos beyond by simp
  next
    case False
    then have st: "yellow_step g n (cnt1, r1) = (cnt1, r1)"
      by (auto simp: yellow_step_def)
    show ?thesis
      unfolding unfold st using ih rn r0n
      by auto
  qed
qed

section \<open>Properties of the encoder\<close>

lemma reply_for_Inr_iff: "(\<exists>r. reply_for g t = Inr r) = (5 \<le> length g \<and> 5 \<le> length t)"
  by (auto simp: reply_for_def Let_def)

lemma reply_for_length: "reply_for g t = Inr r \<Longrightarrow> length r = 5"
  by (auto simp: reply_for_def Let_def second_pass_length split: if_splits)

lemma reply_for_green:
  assumes "reply_for g t = Inr r" and "i < 5"
  shows "(r ! i = Green) = (g ! i = t ! i)"
proof -
  let ?r0 = "map (\<lambda>i. if g ! i = t ! i then Green else Miss) [0..<5]"
  from assms(1) obtain cnt where r: "r = snd (fold (yellow_step g) [0..<5] (cnt, ?r0))"
    by (auto simp: reply_for_def Let_def split: if_splits)
  have "(r ! i = Green) = (?r0 ! i = Green)"
    unfolding r using assms(2) by (subst second_pass_green) simp_all
  also have "\<dots> = (g ! i = t ! i)"
    using assms(2) marks_distinct by (auto simp del: upt_Suc)
  finally show ?thesis .
qed

lemma reply_for_yellow_count:
  assumes "reply_for g t = Inr r"
  shows "length (filter (\<lambda>i. g ! i = c \<and> r ! i = Yellow) [0..<5])
         \<le> length (filter (\<lambda>i. t ! i = c \<and> g ! i \<noteq> t ! i) [0..<5])"
proof -
  let ?r0 = "map (\<lambda>i. if g ! i = t ! i then Green else Miss) [0..<5]"
  let ?cnt = "Counter (map (\<lambda>i. t ! i) (filter (\<lambda>i. g ! i \<noteq> t ! i) [0..<5]))"
  let ?s = "fold (yellow_step g) [0..<5] (?cnt, ?r0)"
  from assms have r: "r = snd ?s"
    by (auto simp: reply_for_def Let_def split: if_splits)
  have noY: "\<forall>i<5. ?r0 ! i \<noteq> Yellow"
    using marks_distinct by (auto simp del: upt_Suc)
  have cnt: "cget ?cnt c = int (length (filter (\<lambda>i. t ! i = c \<and> g ! i \<noteq> t ! i) [0..<5]))"
    unfolding cget_Counter count_list_eq_length_filter length_filter_map filter_filter
    by (simp add: comp_def conj_commute eq_commute del: upt_Suc)
  have "int (length (filter (\<lambda>i. g ! i = c \<and> snd ?s ! i = Yellow) [0..<5])) + cget (fst ?s) c = cget ?cnt c
        \<and> 0 \<le> cget (fst ?s) c \<and> (\<forall>j\<ge>5. snd ?s ! j = ?r0 ! j)"
    by (rule second_pass_count) (use noY in \<open>simp_all add: cget_Counter del: upt_Suc\<close>)
  then show ?thesis
    unfolding r cnt by linarith
qed

text \<open>
  Claim C4.  \<^verbatim>\<open>reply_for('HELLO', 'ALLEY')\<close> is Miss, Partial, Hit, Partial, Miss in
  position order, the string \<^verbatim>\<open>.YGY.\<close>.
\<close>

theorem reply_for_HELLO_ALLEY:
  "reply_for ''HELLO'' ''ALLEY'' = Inr ''.YGY.''
   \<and> ''.YGY.'' = [Miss, Yellow, Green, Yellow, Miss]"
  by code_simp

lemma length_filter_nth:
  "length (filter (\<lambda>i. P (xs ! i)) [0..<length xs]) = length (filter P xs)"
proof -
  have "length (filter P (map (\<lambda>i. xs ! i) [0..<length xs])) = length (filter P xs)"
    by (simp only: map_nth)
  then show ?thesis
    by (simp only: length_filter_map comp_def)
qed

lemma count_list_positions:
  "count_list xs y = length (filter (\<lambda>i. xs ! i = y) [0..<length xs])"
  unfolding length_filter_nth [of "\<lambda>x. x = y" xs] count_list_eq_length_filter
  by (rule arg_cong [where f = length], rule filter_cong) auto

lemma length_filter_either:
  assumes "\<And>i. \<not> (Q i \<and> R i)"
  shows "length (filter (\<lambda>i. P i \<and> (Q i \<or> R i)) xs)
         = length (filter (\<lambda>i. P i \<and> Q i) xs) + length (filter (\<lambda>i. P i \<and> R i) xs)"
  using assms by (induction xs) auto

lemma length_filter_cases:
  "length (filter (\<lambda>i. A i \<and> B i) xs) + length (filter (\<lambda>i. A i \<and> \<not> B i) xs)
   = length (filter A xs)"
  by (induction xs) auto

lemma count_first_five:
  assumes "5 \<le> length t"
  shows "length (filter (\<lambda>i. t ! i = c) [0..<5]) \<le> count_list t c"
proof -
  have "[0..<length t] = [0..<5] @ [5..<length t]"
    using assms by (metis le_add_diff_inverse upt_add_eq_append zero_le)
  then show ?thesis
    unfolding count_list_positions [of t c] by simp
qed

lemma all_green: "replicate 5 Green = ''GGGGG''"
  by code_simp

lemma letter_count:
  assumes "reply_for g t = Inr r"
  shows "length (filter (\<lambda>i. g ! i = c \<and> (r ! i = Green \<or> r ! i = Yellow)) [0..<length r])
         \<le> count_list t c"
proof -
  have len: "length r = 5" using assms by (rule reply_for_length)
  have t5: "5 \<le> length t" using assms reply_for_Inr_iff [of g t] by auto
  have green: "\<And>i. i < 5 \<Longrightarrow> (r ! i = Green) = (g ! i = t ! i)"
    using assms by (rule reply_for_green)
  have split: "length (filter (\<lambda>i. g ! i = c \<and> (r ! i = Green \<or> r ! i = Yellow)) [0..<5])
      = length (filter (\<lambda>i. g ! i = c \<and> r ! i = Green) [0..<5])
        + length (filter (\<lambda>i. g ! i = c \<and> r ! i = Yellow) [0..<5])"
    by (rule length_filter_either) (use marks_distinct(1) in auto)
  have hits: "filter (\<lambda>i. g ! i = c \<and> r ! i = Green) [0..<5]
      = filter (\<lambda>i. t ! i = c \<and> g ! i = t ! i) [0..<5]"
    by (rule filter_cong) (auto simp: green simp del: upt_Suc)
  have target: "length (filter (\<lambda>i. t ! i = c \<and> g ! i = t ! i) [0..<5])
        + length (filter (\<lambda>i. t ! i = c \<and> g ! i \<noteq> t ! i) [0..<5])
      = length (filter (\<lambda>i. t ! i = c) [0..<5])"
    by (rule length_filter_cases)
  show ?thesis
    unfolding len split hits
    using reply_for_yellow_count [OF assms, of c] target count_first_five [OF t5, of c]
    by linarith
qed

text \<open>
  Claim C3.  Letter-count conservation: whenever \<^verbatim>\<open>reply_for(g, t)\<close> returns a reply,
  the number of positions \<open>i\<close> with \<open>g[i] = c\<close> that the reply marks Hit or Partial is at
  most the number of occurrences of \<open>c\<close> in \<open>t\<close>; and it returns a reply for all words of
  at least five characters.  The words need not even have equal lengths; for words
  shorter than five characters there is no reply.
\<close>

theorem reply_for_letter_count:
  "(5 \<le> length g \<and> 5 \<le> length t \<longrightarrow> (\<exists>r. reply_for g t = Inr r))
   \<and> (\<forall>r. reply_for g t = Inr r \<longrightarrow>
         length (filter (\<lambda>i. g ! i = c \<and> (r ! i = Green \<or> r ! i = Yellow)) [0..<length r])
         \<le> count_list t c)"
proof (intro conjI allI impI)
  assume "5 \<le> length g \<and> 5 \<le> length t"
  then show "\<exists>r. reply_for g t = Inr r"
    by (simp add: reply_for_Inr_iff)
next
  fix r assume "reply_for g t = Inr r"
  then show "length (filter (\<lambda>i. g ! i = c \<and> (r ! i = Green \<or> r ! i = Yellow)) [0..<length r])
         \<le> count_list t c"
    by (rule letter_count)
qed

text \<open>The guess HELLO against ALLEY: both occurrences of L are marked, and ALLEY has two.\<close>

theorem reply_for_letter_count_witness:
  "reply_for ''HELLO'' ''ALLEY'' = Inr ''.YGY.''
   \<and> length (filter (\<lambda>i. ''HELLO'' ! i = CHR ''L'' \<and> (''.YGY.'' ! i = Green \<or> ''.YGY.'' ! i = Yellow))
        [0..<length ''.YGY.'']) = 2
   \<and> count_list ''ALLEY'' CHR ''L'' = 2"
proof -
  have r: "reply_for ''HELLO'' ''ALLEY'' = Inr ''.YGY.''" by code_simp
  have "length (filter (\<lambda>i. ''HELLO'' ! i = CHR ''L'' \<and> (''.YGY.'' ! i = Green \<or> ''.YGY.'' ! i = Yellow))
        [0..<length ''.YGY.'']) \<le> count_list ''ALLEY'' CHR ''L''"
    using reply_for_letter_count [of "''HELLO''" "''ALLEY''" "CHR ''L''"] r by blast
  moreover have "count_list ''ALLEY'' CHR ''L'' = 2" by code_simp
  moreover have "2 \<le> length (filter (\<lambda>i. ''HELLO'' ! i = CHR ''L''
        \<and> (''.YGY.'' ! i = Green \<or> ''.YGY.'' ! i = Yellow)) [0..<length ''.YGY.''])"
    by code_simp
  ultimately show ?thesis using r by simp
qed

text \<open>
  Claim C5, as amended.  For words of at least five characters \<^verbatim>\<open>reply_for\<close> returns a
  reply, and its number of Hit symbols is the number of positions among the first five
  at which guess and target agree; for words of exactly five characters these are all
  positions.  The claim as stated, for equal-length words of any length, fails: the
  encoder reads \<^verbatim>\<open>range(5)\<close> only.
\<close>

theorem reply_for_hits_first_five:
  assumes "5 \<le> length g" and "5 \<le> length t"
  shows "\<exists>r. reply_for g t = Inr r
           \<and> count_list r Green = length (filter (\<lambda>i. g ! i = t ! i) [0..<5])"
proof -
  from assms obtain r where r: "reply_for g t = Inr r"
    using reply_for_Inr_iff [of g t] by auto
  have len: "length r = 5" using r by (rule reply_for_length)
  have "filter (\<lambda>i. r ! i = Green) [0..<5] = filter (\<lambda>i. g ! i = t ! i) [0..<5]"
    by (rule filter_cong) (auto simp: reply_for_green [OF r] simp del: upt_Suc)
  then have "count_list r Green = length (filter (\<lambda>i. g ! i = t ! i) [0..<5])"
    unfolding count_list_positions [of r Green] len by simp
  with r show ?thesis by blast
qed

theorem reply_for_hits_first_five_witness:
  "5 \<le> length ''BANANA'' \<and> 5 \<le> length ''CABANA''
   \<and> reply_for ''BANANA'' ''CABANA'' = Inr ''YG.GG''
   \<and> count_list ''YG.GG'' Green = 3
   \<and> length (filter (\<lambda>i. ''BANANA'' ! i = ''CABANA'' ! i) [0..<5]) = 3"
proof -
  have len: "5 \<le> length ''BANANA''" "5 \<le> length ''CABANA''" by simp_all
  have r: "reply_for ''BANANA'' ''CABANA'' = Inr ''YG.GG''" by code_simp
  from reply_for_hits_first_five [OF len] r
  have "count_list ''YG.GG'' Green = length (filter (\<lambda>i. ''BANANA'' ! i = ''CABANA'' ! i) [0..<5])"
    by simp
  moreover have "count_list ''YG.GG'' Green = 3" by code_simp
  ultimately show ?thesis using r len by simp
qed

text \<open>
  The six-letter words BANANA and CABANA agree at four positions (1, 3, 4 and 5, counted
  from 0), but the reply has five symbols, three of them Hit.
\<close>

theorem reply_for_hits_counterexample:
  "length ''BANANA'' = length ''CABANA''
   \<and> reply_for ''BANANA'' ''CABANA'' = Inr ''YG.GG''
   \<and> count_list ''YG.GG'' Green = 3
   \<and> length (filter (\<lambda>i. ''BANANA'' ! i = ''CABANA'' ! i) [0..<length ''BANANA'']) = 4"
  by code_simp

lemma reply_for_self:
  assumes "length w = 5"
  shows "reply_for w w = Inr ''GGGGG''"
proof -
  obtain r where r: "reply_for w w = Inr r"
    using reply_for_Inr_iff [of w w] assms by auto
  have "length r = 5" using r by (rule reply_for_length)
  moreover have "\<And>i. i < 5 \<Longrightarrow> r ! i = Green"
    using reply_for_green [OF r] by simp
  ultimately have "r = replicate 5 Green"
    by (intro nth_equalityI) simp_all
  with r show ?thesis by (simp add: all_green)
qed

lemma reply_for_other:
  assumes "length a = 5" and "length b = 5" and "a \<noteq> b"
  shows "\<exists>r. reply_for a b = Inr r \<and> r \<noteq> ''GGGGG''"
proof -
  obtain r where r: "reply_for a b = Inr r"
    using reply_for_Inr_iff [of a b] assms by auto
  have "r \<noteq> replicate 5 Green"
  proof
    assume all: "r = replicate 5 Green"
    have "\<And>i. i < 5 \<Longrightarrow> a ! i = b ! i"
      using reply_for_green [OF r] all by simp
    then have "a = b"
      using assms(1,2) by (intro nth_equalityI) simp_all
    with assms(3) show False by simp
  qed
  with r show ?thesis by (auto simp: all_green)
qed

text \<open>
  Claim C9.  For words of length 5 \<^verbatim>\<open>reply_for\<close> returns a reply, and the reply is
  \<^verbatim>\<open>GGGGG\<close> exactly when guess and target are the same word.
\<close>

theorem reply_for_all_green_iff:
  assumes "length g = 5" and "length t = 5"
  shows "(reply_for g t = Inr ''GGGGG'') = (g = t) \<and> (\<exists>r. reply_for g t = Inr r)"
proof (cases "g = t")
  case True
  then show ?thesis
    using reply_for_self [OF assms(1)] by simp
next
  case False
  with reply_for_other [OF assms] show ?thesis by auto
qed

theorem reply_for_all_green_iff_witness:
  "length ''HELLO'' = 5 \<and> length ''CELLO'' = 5
   \<and> reply_for ''HELLO'' ''HELLO'' = Inr ''GGGGG''
   \<and> reply_for ''HELLO'' ''CELLO'' = Inr ''.GGGG'' \<and> ''HELLO'' \<noteq> ''CELLO''"
proof -
  have len: "length ''HELLO'' = 5" "length ''CELLO'' = 5" by simp_all
  have "reply_for ''HELLO'' ''HELLO'' = Inr ''GGGGG''"
    using reply_for_all_green_iff [OF len(1) len(1)] by simp
  moreover have "reply_for ''HELLO'' ''CELLO'' = Inr ''.GGGG''" by code_simp
  ultimately show ?thesis using len by simp
qed

section \<open>Properties of the partition engine\<close>

lemma collect_Inr_iff:
  "(collect f xs = Inr ys) = (length ys = length xs \<and> (\<forall>i<length xs. f (xs ! i) = Inr (ys ! i)))"
proof (induction xs arbitrary: ys)
  case Nil
  then show ?case by auto
next
  case (Cons x xs)
  show ?case
  proof (cases ys)
    case Nil
    then show ?thesis by (auto split: sum.splits)
  next
    case (Cons y ys')
    then show ?thesis
      using Cons.IH [of ys'] by (auto simp: less_Suc_eq_0_disj split: sum.splits)
  qed
qed

lemma collect_defined:
  "(\<forall>x\<in>set xs. \<exists>y. f x = Inr y) \<Longrightarrow> \<exists>ys. collect f xs = Inr ys"
  by (induction xs) (auto split: sum.splits)

lemma replies_for_defined:
  "(\<forall>g\<in>set guesses. 5 \<le> length g) \<Longrightarrow> 5 \<le> length t \<Longrightarrow> \<exists>k. replies_for guesses t = Inr k"
  unfolding replies_for_def
  by (rule collect_defined) (use reply_for_Inr_iff in auto)

lemma keys_append_bin:
  "map fst (append_bin k v d) = (if k \<in> set (map fst d) then map fst d else map fst d @ [k])"
  by (induction d) force+

lemma set_append_bin:
  "(k', b') \<in> set (append_bin k v d) \<Longrightarrow>
     (k', b') \<in> set d \<or> (k' = k \<and> (b' = [v] \<or> (\<exists>b. (k, b) \<in> set d \<and> b' = b @ [v])))"
  by (induction d) (auto split: if_splits)

lemma mset_append_bin:
  "mset (concat (dvalues (append_bin k v d))) = mset (concat (dvalues d)) + {#v#}"
  by (induction d) (auto simp: dvalues_def)

lemma bins_invD:
  "bins_inv guesses d \<Longrightarrow> (k, b) \<in> set d \<Longrightarrow> t \<in> set b \<Longrightarrow> replies_for guesses t = Inr k"
  by (auto simp: bins_inv_def)

lemma bins_inv_empty: "bins_inv guesses []"
  by (simp add: bins_inv_def)

lemma bins_inv_append_bin:
  assumes "bins_inv guesses d" and "replies_for guesses t = Inr k"
  shows "bins_inv guesses (append_bin k t d)"
  unfolding bins_inv_def
proof (intro conjI)
  show "distinct (map fst (append_bin k t d))"
    using assms(1) by (auto simp: keys_append_bin bins_inv_def)
  show "\<forall>(k', b)\<in>set (append_bin k t d). b \<noteq> [] \<and> (\<forall>t\<in>set b. replies_for guesses t = Inr k')"
  proof (clarify, intro conjI ballI)
    fix k' b assume mem: "(k', b) \<in> set (append_bin k t d)"
    from set_append_bin [OF mem] assms show "b \<noteq> []"
      by (auto simp: bins_inv_def)
    fix u assume "u \<in> set b"
    with set_append_bin [OF mem] assms show "replies_for guesses u = Inr k'"
      by (fastforce simp: bins_inv_def)
  qed
qed

lemma partition_loop_inv:
  assumes "partition_loop guesses ts d = Inr p" and "bins_inv guesses d"
  shows "bins_inv guesses p \<and> mset (concat (dvalues p)) = mset (concat (dvalues d)) + mset ts"
  using assms
proof (induction ts arbitrary: d)
  case Nil
  then show ?case by simp
next
  case (Cons t ts)
  from Cons.prems(1) obtain k where k: "replies_for guesses t = Inr k"
    and rest: "partition_loop guesses ts (append_bin k t d) = Inr p"
    by (auto split: sum.splits)
  have "bins_inv guesses (append_bin k t d)"
    using Cons.prems(2) k by (rule bins_inv_append_bin)
  from Cons.IH [OF rest this] show ?case
    by (simp add: mset_append_bin)
qed

lemma partition_loop_defined:
  assumes "\<forall>g\<in>set guesses. 5 \<le> length g" and "\<forall>t\<in>set ts. 5 \<le> length t"
  shows "\<exists>p. partition_loop guesses ts d = Inr p"
  using assms(2)
proof (induction ts arbitrary: d)
  case Nil
  then show ?case by simp
next
  case (Cons t ts)
  then obtain k where "replies_for guesses t = Inr k"
    using replies_for_defined [OF assms(1), of t] by auto
  with Cons show ?case by simp
qed

lemma partition_words_defined:
  "\<forall>g\<in>set guesses. 5 \<le> length g \<Longrightarrow> \<forall>t\<in>set targets. 5 \<le> length t \<Longrightarrow>
     \<exists>p. partition_words guesses targets = Inr p"
  unfolding partition_words_def by (rule partition_loop_defined)

lemma partition_words_inv:
  assumes "partition_words guesses targets = Inr p"
  shows "bins_inv guesses p" and "mset (concat (dvalues p)) = mset targets"
  using partition_loop_inv [OF assms [unfolded partition_words_def] bins_inv_empty]
  by (simp_all add: dvalues_def)

lemma bins_inv_disjoint:
  assumes "bins_inv guesses p" and "i < length (dvalues p)" and "j < length (dvalues p)" and "i \<noteq> j"
  shows "set (dvalues p ! i) \<inter> set (dvalues p ! j) = {}"
proof (rule ccontr)
  assume "set (dvalues p ! i) \<inter> set (dvalues p ! j) \<noteq> {}"
  then obtain t where ti: "t \<in> set (snd (p ! i))" and tj: "t \<in> set (snd (p ! j))"
    using assms(2,3) by (auto simp: dvalues_def)
  have "p ! i \<in> set p" "p ! j \<in> set p"
    using assms(2,3) by (simp_all add: dvalues_def)
  then have "replies_for guesses t = Inr (fst (p ! i))" "replies_for guesses t = Inr (fst (p ! j))"
    using assms(1) ti tj by (auto intro: bins_invD [where b = "snd (p ! i)"] bins_invD [where b = "snd (p ! j)"])
  then have "map fst p ! i = map fst p ! j"
    using assms(2,3) by (simp add: dvalues_def)
  moreover have "distinct (map fst p)" using assms(1) by (simp add: bins_inv_def)
  moreover have "i < length (map fst p)" "j < length (map fst p)"
    using assms(2,3) by (simp_all add: dvalues_def)
  ultimately have "i = j"
    by (simp only: nth_eq_iff_index_eq)
  with assms(4) show False by simp
qed

lemma bins_exact:
  assumes "partition_words guesses targets = Inr p"
  shows "(\<forall>i<length (dvalues p). \<forall>j<length (dvalues p). i \<noteq> j \<longrightarrow>
            set (dvalues p ! i) \<inter> set (dvalues p ! j) = {})
         \<and> \<Union> (set ` set (dvalues p)) = set targets
         \<and> mset (concat (dvalues p)) = mset targets
         \<and> sum_list (map length (dvalues p)) = length targets"
proof (intro conjI allI impI)
  note inv = partition_words_inv [OF assms]
  fix i j assume "i < length (dvalues p)" "j < length (dvalues p)" "i \<noteq> j"
  then show "set (dvalues p ! i) \<inter> set (dvalues p ! j) = {}"
    using inv(1) by (intro bins_inv_disjoint)
next
  note inv = partition_words_inv [OF assms]
  have "set (concat (dvalues p)) = set targets"
    using inv(2) by (rule mset_eq_setD)
  then show "\<Union> (set ` set (dvalues p)) = set targets" by simp
  show "mset (concat (dvalues p)) = mset targets" by (rule inv(2))
  have "length (concat (dvalues p)) = length targets"
    using inv(2) by (rule mset_eq_length)
  then show "sum_list (map length (dvalues p)) = length targets"
    by (simp add: length_concat)
qed

text \<open>
  Claim C2.  \<^verbatim>\<open>partition(guesses, targets)\<close> returns for all words of at least five
  characters, and the bins it returns are pairwise disjoint, their union is the set of
  targets, every target occurs in the bins exactly as often as in the input, and the bin
  sizes add up to the number of targets.
\<close>

theorem partition_exact:
  "((\<forall>g\<in>set guesses. 5 \<le> length g) \<and> (\<forall>t\<in>set targets. 5 \<le> length t)
      \<longrightarrow> (\<exists>p. partition_words guesses targets = Inr p))
   \<and> (\<forall>p. partition_words guesses targets = Inr p \<longrightarrow>
        (\<forall>i<length (dvalues p). \<forall>j<length (dvalues p). i \<noteq> j \<longrightarrow>
            set (dvalues p ! i) \<inter> set (dvalues p ! j) = {})
         \<and> \<Union> (set ` set (dvalues p)) = set targets
         \<and> mset (concat (dvalues p)) = mset targets
         \<and> sum_list (map length (dvalues p)) = length targets)"
proof (intro conjI allI impI)
  assume "(\<forall>g\<in>set guesses. 5 \<le> length g) \<and> (\<forall>t\<in>set targets. 5 \<le> length t)"
  then show "\<exists>p. partition_words guesses targets = Inr p"
    by (intro partition_words_defined) simp_all
next
  fix p assume p: "partition_words guesses targets = Inr p"
  fix i j assume "i < length (dvalues p)" "j < length (dvalues p)" "i \<noteq> j"
  with bins_exact [OF p] show "set (dvalues p ! i) \<inter> set (dvalues p ! j) = {}"
    by blast
next
  fix p assume p: "partition_words guesses targets = Inr p"
  from bins_exact [OF p] show "\<Union> (set ` set (dvalues p)) = set targets"
    and "mset (concat (dvalues p)) = mset targets"
    and "sum_list (map length (dvalues p)) = length targets"
    by blast+
qed

text \<open>The notebook's example: eight words partitioned by HELLO and WORLD into seven bins.\<close>

theorem partition_exact_witness:
  "partition_words [''HELLO'', ''WORLD'']
     [''HELLO'', ''WORLD'', ''CELLO'', ''ALLEY'', ''HEAVY'', ''HEART'', ''ALLAY'', ''LILAC'']
   = Inr [([''GGGGG'', ''.Y.G.''], [''HELLO'']),
          ([''...GY'', ''GGGGG''], [''WORLD'']),
          ([''.GGGG'', ''.Y.G.''], [''CELLO'']),
          ([''.YGY.'', ''...Y.''], [''ALLEY'']),
          ([''GG...'', ''.....''], [''HEAVY'']),
          ([''GG...'', ''..Y..''], [''HEART'']),
          ([''..GY.'', ''...Y.''], [''ALLAY'', ''LILAC''])]
   \<and> sum_list (map length (dvalues
          [([''GGGGG'', ''.Y.G.''], [''HELLO'']),
           ([''...GY'', ''GGGGG''], [''WORLD'']),
           ([''.GGGG'', ''.Y.G.''], [''CELLO'']),
           ([''.YGY.'', ''...Y.''], [''ALLEY'']),
           ([''GG...'', ''.....''], [''HEAVY'']),
           ([''GG...'', ''..Y..''], [''HEART'']),
           ([''..GY.'', ''...Y.''], [''ALLAY'', ''LILAC''])]))
       = length [''HELLO'', ''WORLD'', ''CELLO'', ''ALLEY'', ''HEAVY'', ''HEART'', ''ALLAY'', ''LILAC'']"
proof -
  have p: "partition_words [''HELLO'', ''WORLD'']
     [''HELLO'', ''WORLD'', ''CELLO'', ''ALLEY'', ''HEAVY'', ''HEART'', ''ALLAY'', ''LILAC'']
   = Inr [([''GGGGG'', ''.Y.G.''], [''HELLO'']),
          ([''...GY'', ''GGGGG''], [''WORLD'']),
          ([''.GGGG'', ''.Y.G.''], [''CELLO'']),
          ([''.YGY.'', ''...Y.''], [''ALLEY'']),
          ([''GG...'', ''.....''], [''HEAVY'']),
          ([''GG...'', ''..Y..''], [''HEART'']),
          ([''..GY.'', ''...Y.''], [''ALLAY'', ''LILAC''])]"
    by code_simp
  from partition_exact [of "[''HELLO'', ''WORLD'']"
      "[''HELLO'', ''WORLD'', ''CELLO'', ''ALLEY'', ''HEAVY'', ''HEART'', ''ALLAY'', ''LILAC'']"]
  show ?thesis
    using p by blast
qed

section \<open>Properties of the win verifier\<close>

lemma all_py_True_iff: "(all_py f xs = Inr True) = (\<forall>x\<in>set xs. f x = Inr True)"
  by (induction xs) (auto split: sum.splits)

lemma all_py_cong: "(\<And>x. x \<in> set xs \<Longrightarrow> f x = g x) \<Longrightarrow> all_py f xs = all_py g xs"
  by (induction xs) (auto split: sum.splits)

lemma can_win_bin_True_iff:
  "(can_win_bin w bin = Inr True)
   = (\<exists>p5. partition_words [w] bin = Inr p5 \<and> (\<forall>bin5\<in>set (dvalues p5). length bin5 = 1))"
  by (auto simp: can_win_bin_def list_all_iff split: sum.splits)

text \<open>
  Claim C1.  \<^verbatim>\<open>can_win(guesses, targets)\<close> returns true exactly when \<^verbatim>\<open>partition\<close> returns
  bins each of which has at most one word or is split into singletons by every one of
  its words used as the sole guess.  (When a call raises, \<^verbatim>\<open>can_win\<close> does not return
  true, and the right-hand side is false as well.)
\<close>

theorem can_win_iff:
  "(can_win guesses targets = Inr True)
   = (\<exists>p. partition_words guesses targets = Inr p
        \<and> (\<forall>bin\<in>set (dvalues p).
              length bin \<le> 1
              \<or> (\<forall>w\<in>set bin. \<exists>p5. partition_words [w] bin = Inr p5
                     \<and> (\<forall>bin5\<in>set (dvalues p5). length bin5 = 1))))"
proof (cases "partition_words guesses targets")
  case (Inl e)
  then show ?thesis by (simp add: can_win_def)
next
  case (Inr p)
  have "\<And>bin. ((if length bin < 2 then Inr True else all_py (\<lambda>w. can_win_bin w bin) bin) = Inr True)
      = (length bin \<le> 1 \<or> (\<forall>w\<in>set bin. \<exists>p5. partition_words [w] bin = Inr p5
                     \<and> (\<forall>bin5\<in>set (dvalues p5). length bin5 = 1)))"
    by (auto simp: all_py_True_iff can_win_bin_True_iff)
  then show ?thesis
    by (simp add: can_win_def Inr all_py_True_iff)
qed

text \<open>The notebook's eight example words after the guesses HELLO and WORLD.\<close>

theorem can_win_iff_witness:
  "can_win [''HELLO'', ''WORLD'']
     [''HELLO'', ''WORLD'', ''CELLO'', ''ALLEY'', ''HEAVY'', ''HEART'', ''ALLAY'', ''LILAC''] = Inr True
   \<and> (\<exists>p. partition_words [''HELLO'', ''WORLD'']
          [''HELLO'', ''WORLD'', ''CELLO'', ''ALLEY'', ''HEAVY'', ''HEART'', ''ALLAY'', ''LILAC''] = Inr p
        \<and> (\<forall>bin\<in>set (dvalues p).
              length bin \<le> 1
              \<or> (\<forall>w\<in>set bin. \<exists>p5. partition_words [w] bin = Inr p5
                     \<and> (\<forall>bin5\<in>set (dvalues p5). length bin5 = 1))))"
proof -
  have c: "can_win [''HELLO'', ''WORLD'']
     [''HELLO'', ''WORLD'', ''CELLO'', ''ALLEY'', ''HEAVY'', ''HEART'', ''ALLAY'', ''LILAC''] = Inr True"
    by code_simp
  show ?thesis
    using c can_win_iff [of "[''HELLO'', ''WORLD'']"
        "[''HELLO'', ''WORLD'', ''CELLO'', ''ALLEY'', ''HEAVY'', ''HEART'', ''ALLAY'', ''LILAC'']"]
    by (simp only: simp_thms)
qed

lemma can_win_bin_pair:
  assumes "length a = 5" and "length b = 5" and "a \<noteq> b"
  shows "can_win_bin a [a, b] = Inr True" and "can_win_bin b [a, b] = Inr True"
proof -
  obtain r where r: "reply_for a b = Inr r" "r \<noteq> ''GGGGG''"
    using reply_for_other [OF assms] by auto
  obtain r' where r': "reply_for b a = Inr r'" "r' \<noteq> ''GGGGG''"
    using reply_for_other [OF assms(2,1)] assms(3) by auto
  show "can_win_bin a [a, b] = Inr True"
    using r reply_for_self [OF assms(1)]
    by (simp add: can_win_bin_def partition_words_def replies_for_def dvalues_def)
  show "can_win_bin b [a, b] = Inr True"
    using r' reply_for_self [OF assms(2)]
    by (simp add: can_win_bin_def partition_words_def replies_for_def dvalues_def)
qed

lemma can_win_bin_two:
  assumes "length bin = 2" and "distinct bin" and "\<forall>w\<in>set bin. length w = 5"
  shows "\<forall>w\<in>set bin. can_win_bin w bin = Inr True"
proof -
  from assms(1) obtain a b where bin: "bin = [a, b]"
    by (cases bin; cases "tl bin") auto
  with assms(2,3) have "length a = 5" "length b = 5" "a \<noteq> b" by auto
  from can_win_bin_pair [OF this] show ?thesis
    by (simp add: bin)
qed

lemma partition_bins_distinct:
  assumes "partition_words guesses targets = Inr p" and "distinct targets"
    and "bin \<in> set (dvalues p)"
  shows "distinct bin" and "set bin \<subseteq> set targets"
proof -
  have m: "mset (concat (dvalues p)) = mset targets"
    using assms(1) by (rule partition_words_inv(2))
  then have "distinct (concat (dvalues p))"
    using assms(2) by (metis mset_eq_imp_distinct_iff)
  then show "distinct bin"
    using assms(3) by (auto simp: distinct_concat_iff)
  have "set (concat (dvalues p)) = set targets"
    using m by (rule mset_eq_setD)
  then show "set bin \<subseteq> set targets"
    using assms(3) by auto
qed

text \<open>
  Claim C10, as amended.  In a bin of exactly two distinct five-letter words each word
  splits the bin into two singletons, so \<^verbatim>\<open>can_win_bin\<close> holds of both; consequently, on
  a corpus of pairwise distinct five-letter words, \<^verbatim>\<open>can_win\<close> (which exempts bins of
  fewer than two words) returns what the variant exempting two-word bins as well
  returns, errors included.  The claim as stated, for any two distinct words and any
  corpus, fails: \<^verbatim>\<open>reply_for\<close> reads five characters only, and a corpus may repeat a word.
\<close>

theorem two_word_bins_exempt:
  "(length bin = 2 \<and> distinct bin \<and> (\<forall>w\<in>set bin. length w = 5)
      \<longrightarrow> (\<forall>w\<in>set bin. can_win_bin w bin = Inr True))
   \<and> (distinct targets \<and> (\<forall>t\<in>set targets. length t = 5)
      \<longrightarrow> can_win guesses targets = can_win_exempt2 guesses targets)"
proof (intro conjI impI)
  assume "length bin = 2 \<and> distinct bin \<and> (\<forall>w\<in>set bin. length w = 5)"
  then show "\<forall>w\<in>set bin. can_win_bin w bin = Inr True"
    by (intro can_win_bin_two) simp_all
next
  assume h: "distinct targets \<and> (\<forall>t\<in>set targets. length t = 5)"
  show "can_win guesses targets = can_win_exempt2 guesses targets"
  proof (cases "partition_words guesses targets")
    case (Inl e)
    then show ?thesis by (simp add: can_win_def can_win_exempt2_def)
  next
    case (Inr p)
    have "all_py (\<lambda>bin. if length bin < 2 then Inr True else all_py (\<lambda>w. can_win_bin w bin) bin) (dvalues p)
        = all_py (\<lambda>bin. if length bin < 3 then Inr True else all_py (\<lambda>w. can_win_bin w bin) bin) (dvalues p)"
    proof (rule all_py_cong)
      fix b assume b: "b \<in> set (dvalues p)"
      have d: "distinct b" and sub: "set b \<subseteq> set targets"
        using partition_bins_distinct [OF Inr _ b] h by simp_all
      show "(if length b < 2 then Inr True else all_py (\<lambda>w. can_win_bin w b) b)
          = (if length b < 3 then Inr True else all_py (\<lambda>w. can_win_bin w b) b)"
      proof (cases "length b = 2")
        case True
        have "\<forall>w\<in>set b. can_win_bin w b = Inr True"
          using True d sub h by (intro can_win_bin_two) auto
        then have "all_py (\<lambda>w. can_win_bin w b) b = Inr True"
          by (simp add: all_py_True_iff)
        with True show ?thesis by simp
      next
        case False
        then show ?thesis by auto
      qed
    qed
    then show ?thesis
      by (simp add: can_win_def can_win_exempt2_def Inr)
  qed
qed

text \<open>The bin ALLAY, LILAC of the notebook's example, and the example corpus itself.\<close>

theorem two_word_bins_exempt_witness:
  "length [''ALLAY'', ''LILAC''] = 2 \<and> distinct [''ALLAY'', ''LILAC'']
   \<and> length ''ALLAY'' = 5 \<and> length ''LILAC'' = 5
   \<and> can_win_bin ''ALLAY'' [''ALLAY'', ''LILAC''] = Inr True
   \<and> can_win_bin ''LILAC'' [''ALLAY'', ''LILAC''] = Inr True
   \<and> distinct [''HELLO'', ''CELLO'', ''ALLAY'', ''LILAC'']
   \<and> can_win [''HELLO''] [''HELLO'', ''CELLO'', ''ALLAY'', ''LILAC''] = Inr True
   \<and> can_win_exempt2 [''HELLO''] [''HELLO'', ''CELLO'', ''ALLAY'', ''LILAC''] = Inr True"
proof -
  have bin: "length [''ALLAY'', ''LILAC''] = 2 \<and> distinct [''ALLAY'', ''LILAC'']
      \<and> (\<forall>w\<in>set [''ALLAY'', ''LILAC'']. length w = 5)"
    by simp
  have corpus: "distinct [''HELLO'', ''CELLO'', ''ALLAY'', ''LILAC'']
      \<and> (\<forall>t\<in>set [''HELLO'', ''CELLO'', ''ALLAY'', ''LILAC'']. length t = 5)"
    by simp
  have e: "can_win_exempt2 [''HELLO''] [''HELLO'', ''CELLO'', ''ALLAY'', ''LILAC''] = Inr True"
    by code_simp
  note inst = two_word_bins_exempt [of "[''ALLAY'', ''LILAC'']"
      "[''HELLO'', ''CELLO'', ''ALLAY'', ''LILAC'']" "[''HELLO'']"]
  have "\<forall>w\<in>set [''ALLAY'', ''LILAC'']. can_win_bin w [''ALLAY'', ''LILAC''] = Inr True"
    using inst bin by blast
  moreover have "can_win [''HELLO''] [''HELLO'', ''CELLO'', ''ALLAY'', ''LILAC''] = Inr True"
    using inst corpus e by simp
  ultimately show ?thesis using e by simp
qed

text \<open>
  CELLOS and CELLOX are distinct and agree on their first five characters, so each
  gets the reply \<^verbatim>\<open>GGGGG\<close> from the other and the bin is not split.  After the guess
  HELLO they share a bin, and so do the two entries of a corpus that has CELLO twice:
  \<^verbatim>\<open>can_win\<close> returns false where the variant returns true.
\<close>

theorem two_word_bins_counterexample:
  "length [''CELLOS'', ''CELLOX''] = 2 \<and> distinct [''CELLOS'', ''CELLOX'']
   \<and> can_win_bin ''CELLOS'' [''CELLOS'', ''CELLOX''] = Inr False
   \<and> can_win [''HELLO''] [''CELLOS'', ''CELLOX''] = Inr False
   \<and> can_win_exempt2 [''HELLO''] [''CELLOS'', ''CELLOX''] = Inr True
   \<and> can_win [''HELLO''] [''CELLO'', ''CELLO''] = Inr False
   \<and> can_win_exempt2 [''HELLO''] [''CELLO'', ''CELLO''] = Inr True"
  by code_simp

section \<open>Properties of the bin statistics\<close>











section \<open>Properties of the candidate generator\<close>

declare disjoint_words.simps [simp del]

lemma scan_words_Some:
  "scan_words n words letters rest = Some ws \<Longrightarrow>
     \<exists>w rs. ws = w # rs \<and> w \<in> set rest \<and> set w \<subseteq> letters \<and> card (set w) = 5
        \<and> disjoint_words (n - 1) words (letters - set w) = Some rs"
  by (induction rest) (auto split: if_splits option.splits)

lemma scan_words_None_iff:
  "(scan_words n words letters rest = None)
   = (\<forall>w\<in>set rest. set w \<subseteq> letters \<and> card (set w) = 5
        \<longrightarrow> disjoint_words (n - 1) words (letters - set w) = None)"
  by (induction rest) (auto split: option.splits)

lemma disjoint_words_drawn:
  "disjoint_words n words letters = Some ws \<Longrightarrow> int (length ws) = n \<and> drawn words letters ws"
proof (induction ws arbitrary: n letters)
  case Nil
  show ?case
  proof (cases "n = 0")
    case True
    then show ?thesis by simp
  next
    case False
    with Nil have "scan_words n words letters words = Some []"
      by (simp add: disjoint_words.simps)
    from scan_words_Some [OF this] show ?thesis by simp
  qed
next
  case (Cons w rs)
  then have "scan_words n words letters words = Some (w # rs)"
    by (simp add: disjoint_words.simps split: if_splits)
  from scan_words_Some [OF this]
  have w: "w \<in> set words" "set w \<subseteq> letters" "card (set w) = 5"
    and rest: "disjoint_words (n - 1) words (letters - set w) = Some rs"
    by auto
  from Cons.IH [OF rest] w show ?case by simp
qed

lemma drawn_found:
  "drawn words letters ws \<Longrightarrow> int (length ws) = n \<Longrightarrow> disjoint_words n words letters \<noteq> None"
proof (induction ws arbitrary: n letters)
  case Nil
  then show ?case by (simp add: disjoint_words.simps)
next
  case (Cons w rs)
  from Cons.prems
  have n: "n \<noteq> 0" and w: "w \<in> set words" "set w \<subseteq> letters \<and> card (set w) = 5"
    and rs: "drawn words (letters - set w) rs" "int (length rs) = n - 1"
    by auto
  have found: "disjoint_words (n - 1) words (letters - set w) \<noteq> None"
    using rs by (rule Cons.IH)
  have "scan_words n words letters words \<noteq> None"
  proof
    assume "scan_words n words letters words = None"
    then have "\<forall>v\<in>set words. set v \<subseteq> letters \<and> card (set v) = 5
        \<longrightarrow> disjoint_words (n - 1) words (letters - set v) = None"
      by (simp only: scan_words_None_iff)
    with w have "disjoint_words (n - 1) words (letters - set w) = None"
      by blast
    with found show False by simp
  qed
  with n show ?case by (simp add: disjoint_words.simps)
qed

lemma drawn_props:
  "drawn words letters ws \<Longrightarrow>
     set ws \<subseteq> set words
     \<and> (\<forall>i<length ws. card (set (ws ! i)) = 5
            \<and> set (ws ! i) \<subseteq> letters - \<Union> (set ` set (take i ws)))"
proof (induction ws arbitrary: letters)
  case Nil
  then show ?case by simp
next
  case (Cons w rs)
  from Cons.prems have w: "w \<in> set words" "set w \<subseteq> letters" "card (set w) = 5"
    and rs: "drawn words (letters - set w) rs" by auto
  note ih = Cons.IH [OF rs]
  have "card (set ((w # rs) ! i)) = 5
        \<and> set ((w # rs) ! i) \<subseteq> letters - \<Union> (set ` set (take i (w # rs)))"
    if "i < length (w # rs)" for i
  proof (cases i)
    case 0
    then show ?thesis using w by simp
  next
    case (Suc k)
    with that ih show ?thesis by auto
  qed
  with ih w show ?case by simp
qed

lemma level_budget_disjoint:
  assumes "\<forall>i<length ws. set (ws ! i) \<subseteq> letters - \<Union> (set ` set (take i ws))"
    and "i < length ws" and "j < length ws" and "i \<noteq> j"
  shows "set (ws ! i) \<inter> set (ws ! j) = {}"
proof -
  have earlier: "set (ws ! a) \<inter> set (ws ! b) = {}" if "a < b" "b < length ws" for a b
  proof -
    have "ws ! a \<in> set (take b ws)"
      using that by (auto simp: in_set_conv_nth intro!: exI [of _ a])
    moreover have "set (ws ! b) \<subseteq> letters - \<Union> (set ` set (take b ws))"
      using assms(1) that by simp
    ultimately show ?thesis by auto
  qed
  show ?thesis
  proof (cases "i < j")
    case True
    then show ?thesis using earlier assms(3) by simp
  next
    case False
    then have "j < i" using assms(4) by simp
    then show ?thesis using earlier [of j i] assms(2) by auto
  qed
qed



lemma feasible_drawn:
  "feasible n words letters ws \<Longrightarrow> drawn words letters ws"
proof (induction ws arbitrary: n letters)
  case Nil
  then show ?case by simp
next
  case (Cons w rs)
  from Cons.prems have w: "w \<in> set words" "set w \<subseteq> letters" "card (set w) = 5"
    by (auto simp: feasible_def)
  have disj: "set ((w # rs) ! i) \<inter> set ((w # rs) ! j) = {}"
    if "i < length (w # rs)" "j < length (w # rs)" "i \<noteq> j" for i j
    using Cons.prems that unfolding feasible_def by blast
  have "feasible (n - 1) words (letters - set w) rs"
    unfolding feasible_def
  proof (intro conjI ballI allI impI)
    show "int (length rs) = n - 1" using Cons.prems by (auto simp: feasible_def)
    show "set rs \<subseteq> set words" using Cons.prems by (auto simp: feasible_def)
  next
    fix v assume v: "v \<in> set rs"
    then obtain k where k: "k < length rs" "rs ! k = v" by (auto simp: in_set_conv_nth)
    have "set ((w # rs) ! 0) \<inter> set ((w # rs) ! Suc k) = {}"
      using k by (intro disj) simp_all
    then have "set w \<inter> set v = {}" using k by simp
    moreover have "set v \<subseteq> letters" using Cons.prems v by (auto simp: feasible_def)
    ultimately show "set v \<subseteq> letters - set w" by auto
    show "card (set v) = 5" using Cons.prems v by (auto simp: feasible_def)
  next
    fix i j assume "i < length rs" "j < length rs" "i \<noteq> j"
    then show "set (rs ! i) \<inter> set (rs ! j) = {}"
      using disj [of "Suc i" "Suc j"] by simp
  qed
  from Cons.IH [OF this] w show ?case by simp
qed

lemma drawn_feasible:
  assumes "drawn words letters ws"
  shows "feasible (int (length ws)) words letters ws"
  unfolding feasible_def
proof (intro conjI ballI allI impI)
  note p = drawn_props [OF assms]
  show "int (length ws) = int (length ws)" by simp
  show "set ws \<subseteq> set words" using p by simp
  fix i j assume "i < length ws" "j < length ws" "i \<noteq> j"
  then show "set (ws ! i) \<inter> set (ws ! j) = {}"
    using p by (intro level_budget_disjoint [of ws letters]) simp_all
next
  note p = drawn_props [OF assms]
  fix w assume "w \<in> set ws"
  then obtain k where k: "k < length ws" "ws ! k = w" by (auto simp: in_set_conv_nth)
  with p show "card (set w) = 5" by auto
  from p k have "set w \<subseteq> letters - \<Union> (set ` set (take k ws))" by auto
  then show "set w \<subseteq> letters" by auto
qed




text \<open>
  Claim C7.  \<^verbatim>\<open>disjoint_words(0, pool, budget)\<close> is the empty sequence.  The function has
  no raising operation and always ends; it returns \<^verbatim>\<open>None\<close> exactly when no feasible
  word-set exists, and then every word of the pool has been visited at the top level:
  \<open>n\<close> is not 0 and each pool word that passes the letter test has led to a failed
  recursive search.
\<close>

theorem disjoint_words_no_solution:
  "disjoint_words 0 words letters = Some []
   \<and> (disjoint_words n words letters = None) = (\<not> (\<exists>ws. feasible n words letters ws))
   \<and> (disjoint_words n words letters = None)
       = (n \<noteq> 0 \<and> (\<forall>w\<in>set words. set w \<subseteq> letters \<and> card (set w) = 5
             \<longrightarrow> disjoint_words (n - 1) words (letters - set w) = None))"
proof (intro conjI)
  show "disjoint_words 0 words letters = Some []"
    by (simp add: disjoint_words.simps)
  show "(disjoint_words n words letters = None) = (\<not> (\<exists>ws. feasible n words letters ws))"
  proof
    assume none: "disjoint_words n words letters = None"
    show "\<not> (\<exists>ws. feasible n words letters ws)"
    proof
      assume "\<exists>ws. feasible n words letters ws"
      then obtain ws where f: "feasible n words letters ws" by blast
      then have "drawn words letters ws" by (rule feasible_drawn)
      moreover have "int (length ws) = n" using f by (simp add: feasible_def)
      ultimately have "disjoint_words n words letters \<noteq> None" by (rule drawn_found)
      with none show False by simp
    qed
  next
    assume no: "\<not> (\<exists>ws. feasible n words letters ws)"
    show "disjoint_words n words letters = None"
    proof (cases "disjoint_words n words letters")
      case None
      then show ?thesis .
    next
      case (Some ws)
      from disjoint_words_drawn [OF Some]
      have "int (length ws) = n" and "drawn words letters ws" by simp_all
      with drawn_feasible [of words letters ws] have "feasible n words letters ws" by simp
      with no show ?thesis by blast
    qed
  qed
  show "(disjoint_words n words letters = None)
       = (n \<noteq> 0 \<and> (\<forall>w\<in>set words. set w \<subseteq> letters \<and> card (set w) = 5
             \<longrightarrow> disjoint_words (n - 1) words (letters - set w) = None))"
    by (simp add: disjoint_words.simps [of n] scan_words_None_iff)
qed

text \<open>A pool without two letter-disjoint words: ABHOR and ABIDE share A and B, HELLO repeats L.\<close>

theorem disjoint_words_no_solution_witness:
  "disjoint_words 2 [''HELLO'', ''ABHOR'', ''ABIDE''] (set ''ABCDEFGHIKLMNOPRSTUVWY'') = None
   \<and> \<not> (\<exists>ws. feasible 2 [''HELLO'', ''ABHOR'', ''ABIDE''] (set ''ABCDEFGHIKLMNOPRSTUVWY'') ws)
   \<and> disjoint_words 0 [''HELLO'', ''ABHOR'', ''ABIDE''] (set ''ABCDEFGHIKLMNOPRSTUVWY'') = Some []"
proof -
  have none: "disjoint_words 2 [''HELLO'', ''ABHOR'', ''ABIDE''] (set ''ABCDEFGHIKLMNOPRSTUVWY'') = None"
    by code_simp
  show ?thesis
    using none
      disjoint_words_no_solution [of "[''HELLO'', ''ABHOR'', ''ABIDE'']"
        "set ''ABCDEFGHIKLMNOPRSTUVWY''" 2]
    by blast
qed

end
